theory Spec2Isabelle
  imports Complex_Main "HOL-Library.While_Combinator" "HOL-Library.Sublist" "HOL-Library.AList" "HOL-Library.Multiset"
begin

section \<open>Python values and errors\<close>

datatype py_error = IndexError | KeyError | NameError | TypeError

type_synonym comid = int

section \<open>The adjacency dictionary (UpcomDict)\<close>

text \<open>
  \<open>UpCOMs\<close> is a \<open>defaultdict(list)\<close>: a finite dictionary from a COMID to the list of
  its direct upstream COMIDs, in which reading a missing key yields the empty list
  (the key the read inserts holds the empty list, so no later read is changed by it).
  The dictionary is an association list read with \<open>map_of\<close> and written with
  \<open>AList.update\<close>.
\<close>

type_synonym updict = "(comid \<times> comid list) list"

definition getitem :: "updict \<Rightarrow> comid \<Rightarrow> comid list" where
  "getitem tree k = (case map_of tree k of None \<Rightarrow> [] | Some ps \<Rightarrow> ps)"

text \<open>A row of the flow table PlusFlow, cut down to the two columns the code keeps.\<close>

record flow_row =
  TOCOMID :: comid
  FROMCOMID :: comid

text \<open>One pass of the loop over the rows of the flow table (lines 96 to 102).\<close>

definition UpCOMs_row :: "updict \<Rightarrow> flow_row \<Rightarrow> updict" where
  "UpCOMs_row UpCOMs r =
     (if FROMCOMID r = 0 then AList.update (TOCOMID r) [] UpCOMs
      else AList.update (TOCOMID r) (getitem UpCOMs (TOCOMID r) @ [FROMCOMID r]) UpCOMs)"

definition UpCOMs_rows :: "flow_row list \<Rightarrow> updict" where
  "UpCOMs_rows flow = foldl UpCOMs_row [] flow"

text \<open>
  A line of the inter-VPU table. The order of its columns is not part of the source, so
  the cells the code reads by position (\<open>interLine[0]\<close>, \<open>interLine[2]\<close>,
  \<open>interLine[6]\<close>) are kept apart from the cells it reads by name.
\<close>

record interVPU_line =
  thruCOMIDs :: comid
  ToZone :: string
  DropCOMID :: comid
  removeCOMs :: comid
  interLine0 :: comid
  interLine2 :: string
  interLine6 :: int

definition UpCOMs_interLine :: "string \<Rightarrow> updict \<Rightarrow> interVPU_line \<Rightarrow> updict" where
  "UpCOMs_interLine zone UpCOMs interLine =
     (if interLine6 interLine > 0 \<and> interLine2 interLine = zone
      then AList.update (interLine6 interLine)
             (getitem UpCOMs (interLine6 interLine) @ [interLine0 interLine]) UpCOMs
      else UpCOMs)"

text \<open>
  The filters applied to the flow table before the loop (lines 75 to 91). \<open>coast\<close> holds
  the rows \<open>(COMID, FTYPE)\<close> of NHDFlowline.
\<close>

definition flow_filter ::
  "flow_row list \<Rightarrow> (comid \<times> string) list \<Rightarrow> interVPU_line list \<Rightarrow> flow_row list" where
  "flow_filter flow coast interVPUtbl =
     (let flow1 = filter (\<lambda>r. TOCOMID r \<noteq> 0) flow;
          coasties = map fst (filter (\<lambda>c. snd c = ''Coastline'') coast);
          flow2 = filter (\<lambda>r. FROMCOMID r \<notin> set coasties) flow1;
          remove = filter (\<lambda>c. c \<noteq> 0) (map removeCOMs interVPUtbl);
          flow3 = filter (\<lambda>r. FROMCOMID r \<notin> set remove) flow2;
          others = filter (\<lambda>chk. chk \<notin> set (map fst coast) \<and> chk \<noteq> 0)
                     (map FROMCOMID flow3)
      in foldl (\<lambda>fl y. if y \<notin> set (map thruCOMIDs interVPUtbl)
                         then filter (\<lambda>r. FROMCOMID r \<noteq> y) fl else fl) flow3 others)"

definition UpcomDict ::
  "flow_row list \<Rightarrow> (comid \<times> string) list \<Rightarrow> string \<Rightarrow> interVPU_line list \<Rightarrow> updict" where
  "UpcomDict flow coast zone interVPUtbl =
     foldl (UpCOMs_interLine zone) (UpCOMs_rows (flow_filter flow coast interVPUtbl)) interVPUtbl"

section \<open>Closures: children and bastards\<close>

text \<open>
  The loop state is the deque \<open>to_crawl\<close> and the set \<open>visited\<close>. A Python set has no
  order of its own; the model keeps \<open>visited\<close> as a duplicate-free list in insertion
  order and iterates \<open>node_children - visited\<close> in the order of the parent list, and
  the theorems below speak of the members of the result only.
  \<open>extendleft\<close> pushes its argument one element at a time on the left, which reverses it.
  The loop is a \<open>while_option\<close>: a run that never leaves the loop is the value \<open>None\<close>.
\<close>

fun crawl_step :: "updict \<Rightarrow> comid list \<times> comid list \<Rightarrow> comid list \<times> comid list" where
  "crawl_step tree ([], visited) = ([], visited)"
| "crawl_step tree (current # to_crawl, visited) =
     (if current \<in> set visited then (to_crawl, visited)
      else (let visited' = visited @ [current];
                node_children = remdups (getitem tree current)
            in (rev (filter (\<lambda>c. c \<notin> set visited') node_children) @ to_crawl, visited')))"

definition crawl :: "comid \<Rightarrow> updict \<Rightarrow> comid list option" where
  "crawl token tree =
     map_option snd (while_option (\<lambda>s. fst s \<noteq> []) (crawl_step tree) ([token], []))"

definition intersection :: "comid list \<Rightarrow> comid set option \<Rightarrow> comid list" where
  "intersection visited chkset =
     (case chkset of None \<Rightarrow> visited | Some chk \<Rightarrow> filter (\<lambda>v. v \<in> chk) visited)"

definition children :: "comid \<Rightarrow> updict \<Rightarrow> comid set option \<Rightarrow> comid list option" where
  "children token tree chkset =
     (case crawl token tree of
        None \<Rightarrow> None
      | Some visited \<Rightarrow> Some (intersection visited chkset))"

text \<open>\<open>visited.remove(token)\<close> raises KeyError when the token is not a member.\<close>

definition bastards :: "comid \<Rightarrow> updict \<Rightarrow> comid set option \<Rightarrow> (py_error + comid list) option" where
  "bastards token tree chkset =
     (case crawl token tree of
        None \<Rightarrow> None
      | Some visited \<Rightarrow>
          if token \<notin> set visited then Some (Inl KeyError)
          else Some (Inr (intersection (removeAll token visited) chkset)))"

text \<open>The measure of the loop: the nodes not yet visited, then the length of the deque.\<close>

definition parents_of :: "updict \<Rightarrow> comid set" where
  "parents_of tree = set (concat (map snd tree))"

definition crawl_rel :: "updict \<Rightarrow> ((comid list \<times> comid list) \<times> (comid list \<times> comid list)) set" where
  "crawl_rel tree = inv_image (finite_psubset <*lex*> less_than)
       (\<lambda>s. ((set (fst s) \<union> parents_of tree) - set (snd s), length (fst s)))"

definition crawl_inv :: "comid \<Rightarrow> comid list \<times> comid list \<Rightarrow> bool" where
  "crawl_inv token s = ((token \<in> set (fst s) \<or> token \<in> set (snd s)) \<and> distinct (snd s))"

section \<open>Cells of a numeric table\<close>

text \<open>
  A cell is a double. The model keeps the values a double can hold that the code tells
  apart (a number, NaN, the two infinities) and computes on the numbers exactly: rounding,
  overflow and the sign of zero are left out.
\<close>

datatype cell = Num rat | NaN | PosInf | NegInf

fun cadd :: "cell \<Rightarrow> cell \<Rightarrow> cell" where
  "cadd (Num a) (Num b) = Num (a + b)"
| "cadd NaN _ = NaN"
| "cadd _ NaN = NaN"
| "cadd PosInf NegInf = NaN"
| "cadd NegInf PosInf = NaN"
| "cadd PosInf _ = PosInf"
| "cadd _ PosInf = PosInf"
| "cadd NegInf _ = NegInf"
| "cadd _ NegInf = NegInf"

fun cneg :: "cell \<Rightarrow> cell" where
  "cneg (Num a) = Num (- a)"
| "cneg NaN = NaN"
| "cneg PosInf = NegInf"
| "cneg NegInf = PosInf"

definition csub :: "cell \<Rightarrow> cell \<Rightarrow> cell" where
  "csub a b = cadd a (cneg b)"

text \<open>The sign of a cell that is not NaN: -1, 0 or 1.\<close>

fun csgn :: "cell \<Rightarrow> int" where
  "csgn (Num a) = (if a < 0 then - 1 else if a = 0 then 0 else 1)"
| "csgn PosInf = 1"
| "csgn NegInf = - 1"
| "csgn NaN = 0"

definition inf_of_sign :: "int \<Rightarrow> cell" where
  "inf_of_sign s = (if s = 0 then NaN else if 0 < s then PosInf else NegInf)"

fun cmul :: "cell \<Rightarrow> cell \<Rightarrow> cell" where
  "cmul (Num a) (Num b) = Num (a * b)"
| "cmul NaN _ = NaN"
| "cmul _ NaN = NaN"
| "cmul a b = inf_of_sign (csgn a * csgn b)"

fun cdiv :: "cell \<Rightarrow> cell \<Rightarrow> cell" where
  "cdiv (Num a) (Num b) = (if b = 0 then inf_of_sign (csgn (Num a)) else Num (a / b))"
| "cdiv NaN _ = NaN"
| "cdiv _ NaN = NaN"
| "cdiv (Num a) _ = Num 0"
| "cdiv PosInf (Num b) = (if b < 0 then NegInf else PosInf)"
| "cdiv NegInf (Num b) = (if b < 0 then PosInf else NegInf)"
| "cdiv _ _ = NaN"

definition np_sum :: "cell list \<Rightarrow> cell" where
  "np_sum xs = foldr cadd xs (Num 0)"

text \<open>
  \<open>np.nansum\<close> takes NaN as zero; the sum of an empty slice, or of one that holds NaN
  only, is 0 (NumPy from 1.9 on).
\<close>

definition nansum :: "cell list \<Rightarrow> cell" where
  "nansum xs = np_sum (map (\<lambda>c. if c = NaN then Num 0 else c) xs)"

text \<open>The largest finite double, which \<open>nan_to_num\<close> puts in the place of an infinity.\<close>

definition max_double :: rat where
  "max_double = (2 ^ 53 - 1) * 2 ^ 971"

definition nan_to_num :: "cell list \<Rightarrow> cell list" where
  "nan_to_num xs =
     map (\<lambda>c. case c of NaN \<Rightarrow> Num 0 | PosInf \<Rightarrow> Num max_double
                        | NegInf \<Rightarrow> Num (- max_double) | Num a \<Rightarrow> Num a) xs"

text \<open>
  \<open>np.ma.average\<close> of unmasked data with weights: the sum of the products over the sum
  of the weights, a division of doubles (0/0 is NaN).
\<close>

definition ma_average :: "cell list \<Rightarrow> cell list \<Rightarrow> cell" where
  "ma_average a weights = cdiv (np_sum (map2 cmul a weights)) (np_sum weights)"

section \<open>Tables\<close>

text \<open>
  A table keyed by COMID: the COMID of every row, the labels of the other columns, and
  the cells of those columns, one list per column. In \<open>Accumulation\<close> COMID is the first
  column of the frame (the code reads the others as \<open>arr.columns[1:]\<close>); in
  \<open>AdjustCOMs\<close> it is the index of the frame. Labels and index values of a frame are
  taken to be unique, where a label names one column and an index value one row.
\<close>

record table =
  COMID :: "comid list"
  columns :: "string list"
  data :: "cell list list"

definition wf_table :: "table \<Rightarrow> bool" where
  "wf_table t = (length (data t) = length (columns t) \<and> distinct (''COMID'' # columns t)
     \<and> list_all (\<lambda>c. length c = length (COMID t)) (data t))"

fun index_of :: "'a \<Rightarrow> 'a list \<Rightarrow> nat option" where
  "index_of x [] = None"
| "index_of x (y # ys) = (if x = y then Some 0 else map_option Suc (index_of x ys))"

section \<open>AdjustCOMs\<close>

text \<open>\<open>tbl.ix[comid, idx]\<close>: a missing row or column label raises KeyError.\<close>

definition get_ix :: "table \<Rightarrow> comid \<Rightarrow> string \<Rightarrow> py_error + cell" where
  "get_ix tbl comid idx =
     (case index_of comid (COMID tbl) of
        None \<Rightarrow> Inl KeyError
      | Some r \<Rightarrow> (case index_of idx (columns tbl) of
                    None \<Rightarrow> Inl KeyError
                  | Some k \<Rightarrow> Inr (data tbl ! k ! r)))"

text \<open>The assignment \<open>tbl.ix[comid, idx] = v\<close> for a row and a column that exist.\<close>

definition set_ix :: "table \<Rightarrow> comid \<Rightarrow> string \<Rightarrow> cell \<Rightarrow> table" where
  "set_ix tbl comid idx v =
     (case (index_of comid (COMID tbl), index_of idx (columns tbl)) of
        (Some r, Some k) \<Rightarrow> tbl\<lparr>data := (data tbl)[k := (data tbl ! k)[r := v]]\<rparr>
      | _ \<Rightarrow> tbl)"

text \<open>
  The loop over \<open>tbl.columns[:-1]\<close>. The table is changed in place; \<open>tbl2\<close> is either
  another frame or the copy taken before the loop, so its cells are those from before
  the call.
\<close>

fun AdjustCOMs_loop :: "string list \<Rightarrow> table \<Rightarrow> comid \<Rightarrow> comid \<Rightarrow> table \<Rightarrow> py_error + table" where
  "AdjustCOMs_loop [] tbl comid1 comid2 tbl2 = Inr tbl"
| "AdjustCOMs_loop (idx # rest) tbl comid1 comid2 tbl2 =
     (case get_ix tbl comid1 idx of
        Inl e \<Rightarrow> Inl e
      | Inr a \<Rightarrow> (case get_ix tbl2 comid2 idx of
                    Inl e \<Rightarrow> Inl e
                  | Inr b \<Rightarrow> AdjustCOMs_loop rest (set_ix tbl comid1 idx (csub a b))
                              comid1 comid2 tbl2))"

definition AdjustCOMs :: "table \<Rightarrow> comid \<Rightarrow> comid \<Rightarrow> table option \<Rightarrow> py_error + table" where
  "AdjustCOMs tbl comid1 comid2 tbl2 =
     AdjustCOMs_loop (butlast (columns tbl)) tbl comid1 comid2
       (case tbl2 of None \<Rightarrow> tbl | Some t \<Rightarrow> t)"

text \<open>
  For the proofs: the cells of column \<open>k\<close> of \<open>tbl\<close> once the loop has run over the labels
  \<open>ls\<close>, with \<open>r1\<close> the row of \<open>comid1\<close> in \<open>tbl\<close> and \<open>r2\<close> the row of \<open>comid2\<close> in \<open>tbl2\<close>.
\<close>

definition adjusted :: "string list \<Rightarrow> table \<Rightarrow> nat \<Rightarrow> nat \<Rightarrow> table \<Rightarrow> nat \<Rightarrow> cell list" where
  "adjusted ls tbl r1 r2 tbl2 k =
     (if columns tbl ! k \<in> set ls
      then (data tbl ! k)[r1 := csub (data tbl ! k ! r1)
              (data tbl2 ! the (index_of (columns tbl ! k) (columns tbl2)) ! r2)]
      else data tbl ! k)"

section \<open>swapper\<close>

text \<open>
  \<open>np.argsort\<close>: the positions of \<open>coms\<close> in ascending order of their values (equal
  values in the order of their positions; with no duplicates every sort gives this).
  \<open>np.searchsorted\<close> on the sorted array: the leftmost insertion point, which is the
  number of elements smaller than the value. Indexing \<open>bsort\<close> with a position equal to
  its length raises IndexError.
\<close>

definition argsort :: "comid list \<Rightarrow> nat list" where
  "argsort coms = map snd (sort_key fst (zip coms [0..<length coms]))"

definition searchsorted :: "comid list \<Rightarrow> comid \<Rightarrow> nat" where
  "searchsorted a v = length (takeWhile (\<lambda>x. x < v) a)"

definition swapper :: "comid list \<Rightarrow> comid list \<Rightarrow> py_error + nat list" where
  "swapper coms upStream =
     (let bsort = argsort coms;
          apos = map (searchsorted (map (\<lambda>i. coms ! i) bsort)) upStream
      in if list_ex (\<lambda>p. length bsort \<le> p) apos then Inl IndexError
         else Inr (map (\<lambda>p. bsort ! p) apos))"

section \<open>Accumulation\<close>

text \<open>The Python slice \<open>d[x:y]\<close> for \<open>0 \<le> x \<le> y\<close>: it stops at the end of \<open>d\<close>.\<close>

definition slice :: "'a list \<Rightarrow> nat \<Rightarrow> nat \<Rightarrow> 'a list" where
  "slice d x y = take (y - x) (drop x d)"

text \<open>
  The two inner loops over \<open>lengths\<close> (lines 662 to 665 and 668 to 670), from the offset
  \<open>x\<close> on: the values written to \<open>z[i]\<close>, in order.
\<close>

fun PctFull_loop :: "cell list \<Rightarrow> cell list \<Rightarrow> nat \<Rightarrow> nat list \<Rightarrow> cell list" where
  "PctFull_loop d ar x [] = []"
| "PctFull_loop d ar x (n # lengths) =
     ma_average (nan_to_num (slice d x (x + n))) (slice ar x (x + n))
       # PctFull_loop d ar (x + n) lengths"

fun nansum_loop :: "cell list \<Rightarrow> nat \<Rightarrow> nat list \<Rightarrow> cell list" where
  "nansum_loop d x [] = []"
| "nansum_loop d x (n # lengths) = nansum (slice d x (x + n)) # nansum_loop d (x + n) lengths"

text \<open>
  One pass of the loop over the columns: the vector \<open>z\<close> after it. \<open>z\<close> has one entry
  per element of \<open>COMIDs\<close>, all zero at first; the entries past \<open>len(lengths)\<close> are never
  written.
\<close>

definition accumulate_column :: "table \<Rightarrow> nat list \<Rightarrow> nat \<Rightarrow> nat list \<Rightarrow> nat \<Rightarrow> cell list" where
  "accumulate_column arr indices n_COMIDs lengths k =
     (let col = columns arr ! k;
          c = data arr ! k;
          d = map (\<lambda>i. c ! i) indices;
          z = (if sublist ''PctFull'' col
               then (let area = data arr ! 0;
                         ar = map (\<lambda>i. area ! i) indices
                     in PctFull_loop d ar 0 lengths)
               else nansum_loop d 0 lengths)
      in z @ replicate (n_COMIDs - length lengths) (Num 0))"

text \<open>\<open>x.replace('Cat', 'Ws')\<close>: every occurrence, left to right, without overlap.\<close>

fun replace_Cat_Ws :: "string \<Rightarrow> string" where
  "replace_Cat_Ws [] = []"
| "replace_Cat_Ws (c # s) =
     (if prefix ''Cat'' (c # s) then ''Ws'' @ replace_Cat_Ws (drop 2 s)
      else c # replace_Cat_Ws s)"

text \<open>
  The labels of \<open>outDF\<close>. With a \<open>tbl_type\<close> other than \<open>'Ws'\<close> and \<open>'UpCat'\<close> the frame
  keeps its integer labels, and the test \<open>'AreaSqKm' in name\<close> raises TypeError.
\<close>

definition outDF_columns :: "string list \<Rightarrow> string \<Rightarrow> py_error + string list" where
  "outDF_columns cols tbl_type =
     (if tbl_type = ''Ws'' then Inr (''COMID'' # map replace_Cat_Ws cols)
      else if tbl_type = ''UpCat'' then Inr (''COMID'' # map (\<lambda>c. ''Up'' @ c) cols)
      else Inl TypeError)"

text \<open>
  The loop that looks for the area column: the position of the last label that contains
  \<open>'AreaSqKm'\<close>, if there is one.
\<close>

definition area_column :: "string list \<Rightarrow> nat option" where
  "area_column names =
     (case filter (\<lambda>j. sublist ''AreaSqKm'' (names ! j)) [0..<length names] of
        [] \<Rightarrow> None
      | js \<Rightarrow> Some (last js))"

text \<open>
  The result: the labels of \<open>outDF\<close> and its rows; the first cell of a row is the COMID,
  held as a double like the rest of \<open>outT\<close>.
\<close>

record accum_table =
  out_columns :: "string list"
  out_rows :: "cell list list"

text \<open>
  Line 681: in every row whose cell in the area column equals zero, the cells of
  \<open>outDF.columns[2:]\<close> become NaN.
\<close>

definition mask_row :: "nat \<Rightarrow> cell list \<Rightarrow> cell list" where
  "mask_row area row =
     (if row ! area = Num 0 then take 2 row @ replicate (length row - 2) NaN else row)"

text \<open>
  The matrix \<open>outT\<close> after line 672: one row per element of \<open>COMIDs\<close>, the COMID first
  and then the entry of every accumulated column, and of these rows the ones whose COMID
  is in the table.
\<close>

definition outT_rows :: "table \<Rightarrow> comid list \<Rightarrow> nat list \<Rightarrow> nat list \<Rightarrow> cell list list" where
  "outT_rows arr COMIDs lengths indices =
     (let outT_cols = map (accumulate_column arr indices (length COMIDs) lengths)
                        [0..<length (columns arr)];
          outT = map (\<lambda>i. Num (of_int (COMIDs ! i)) # map (\<lambda>z. z ! i) outT_cols)
                   [0..<length COMIDs]
      in map snd (filter (\<lambda>p. fst p \<in> set (COMID arr)) (zip COMIDs outT)))"

text \<open>
  When no label contains \<open>'AreaSqKm'\<close> the name \<open>area\<close> is unbound at line 681
  (NameError), unless a PctFull column has bound it to an array of cells at line 659;
  that array is not a label of \<open>outDF\<close>, and the model has KeyError there.
  With no column to accumulate the loop body never runs, so a \<open>lengths\<close> longer than
  \<open>COMIDs\<close> raises IndexError only when there is a column.
\<close>

definition Accumulation ::
  "table \<Rightarrow> comid list \<Rightarrow> nat list \<Rightarrow> comid list \<Rightarrow> string \<Rightarrow> py_error + accum_table" where
  "Accumulation arr COMIDs lengths upStream tbl_type =
     (case swapper (COMID arr) upStream of
        Inl e \<Rightarrow> Inl e
      | Inr indices \<Rightarrow>
          if columns arr \<noteq> [] \<and> length COMIDs < length lengths then Inl IndexError
          else
            (case outDF_columns (columns arr) tbl_type of
               Inl e \<Rightarrow> Inl e
             | Inr names \<Rightarrow>
                 (case area_column names of
                    None \<Rightarrow> if list_ex (sublist ''PctFull'') (columns arr) then Inl KeyError
                            else Inl NameError
                  | Some area \<Rightarrow>
                      Inr \<lparr>out_columns = names,
                           out_rows = map (mask_row area)
                                        (outT_rows arr COMIDs lengths indices)\<rparr>)))"

section \<open>makeNumpyVectors\<close>

text \<open>
  The query COMIDs of a zone (lines 919 to 922): the index of the zone's catchment table,
  then the through-COMIDs of the inter-VPU lines into the zone that drop nothing, without
  the zeros.
\<close>

definition zone_COMIDs :: "comid list \<Rightarrow> interVPU_line list \<Rightarrow> string \<Rightarrow> comid list" where
  "zone_COMIDs catch_index interVPUtbl zone =
     (let COMIDs = catch_index
            @ map thruCOMIDs (filter (\<lambda>l. ToZone l = zone \<and> DropCOMID l = 0) interVPUtbl)
      in if 0 \<in> set COMIDs then filter (\<lambda>c. c \<noteq> 0) COMIDs else COMIDs)"

text \<open>
  The universe of catchments (lines 895 to 905): the indexes of the catchment tables of
  all zones, joined, without the zeros, saved to a file; then the set of what the file
  holds, without zero.
\<close>

definition AllCOMs :: "comid list list \<Rightarrow> comid list" where
  "AllCOMs catchment_indexes = filter (\<lambda>c. c \<noteq> 0) (concat catchment_indexes)"

definition cats :: "comid list \<Rightarrow> comid set" where
  "cats cat = set cat - {0}"

text \<open>
  Line 923 and 924: in zone 14 one COMID is taken out of the universe;
  \<open>cats.remove\<close> raises KeyError when it is not there.
\<close>

definition zone_cats :: "string \<Rightarrow> comid set \<Rightarrow> py_error + comid set" where
  "zone_cats zone cs =
     (if zone = ''14''
      then (if 17029298 \<in> cs then Inr (cs - {17029298}) else Inl KeyError)
      else Inr cs)"

section \<open>Termination and membership of the closures\<close>

lemma getitem_parents: "set (getitem tree k) \<subseteq> parents_of tree"
proof (cases "map_of tree k")
  case None
  then show ?thesis by (simp add: getitem_def)
next
  case (Some ps)
  then have "(k, ps) \<in> set tree" by (rule map_of_SomeD)
  then have "set ps \<subseteq> parents_of tree" by (force simp: parents_of_def)
  then show ?thesis using Some by (simp add: getitem_def)
qed

lemma wf_crawl_rel: "wf (crawl_rel tree)"
  unfolding crawl_rel_def by (intro wf_inv_image wf_lex_prod wf_finite_psubset wf_less_than)

text \<open>
  Every pass of the loop either visits a node that was not visited, or leaves the visited
  set as it is and shortens the deque.
\<close>

lemma crawl_step_decreases:
  assumes "fst s \<noteq> []"
  shows "(crawl_step tree s, s) \<in> crawl_rel tree"
proof -
  obtain current to_crawl visited where s: "s = (current # to_crawl, visited)"
    using assms by (cases s; cases "fst s") auto
  show ?thesis
  proof (cases "current \<in> set visited")
    case True
    have "(set to_crawl \<union> parents_of tree) - set visited
            \<subseteq> (set (current # to_crawl) \<union> parents_of tree) - set visited" by auto
    then show ?thesis using True s
      by (auto simp: crawl_rel_def finite_psubset_def parents_of_def)
  next
    case False
    let ?new = "filter (\<lambda>c. c \<notin> set (visited @ [current])) (remdups (getitem tree current))"
    have "set ?new \<subseteq> parents_of tree" using getitem_parents[of tree current] by auto
    then have "(set (rev ?new @ to_crawl) \<union> parents_of tree) - set (visited @ [current])
             \<subset> (set (current # to_crawl) \<union> parents_of tree) - set visited"
      using False by auto
    moreover have "finite ((set (current # to_crawl) \<union> parents_of tree) - set visited)"
      by (simp add: parents_of_def)
    ultimately show ?thesis using False s
      by (simp add: crawl_rel_def finite_psubset_def Let_def)
  qed
qed

lemma crawl_terminates: "\<exists>t. while_option (\<lambda>s. fst s \<noteq> []) (crawl_step tree) s0 = Some t"
  by (rule wf_rel_while_option_Some[where P = "\<lambda>_. True" and R = "crawl_rel tree"])
     (simp_all add: wf_crawl_rel crawl_step_decreases)

lemma crawl_inv_step: "crawl_inv token s \<Longrightarrow> fst s \<noteq> [] \<Longrightarrow> crawl_inv token (crawl_step tree s)"
proof -
  assume inv: "crawl_inv token s" and ne: "fst s \<noteq> []"
  obtain current to_crawl visited where s: "s = (current # to_crawl, visited)"
    using ne by (cases s; cases "fst s") auto
  show ?thesis using inv unfolding s crawl_inv_def
    by (auto simp: Let_def)
qed

lemma crawl_Some:
  "\<exists>visited. crawl token tree = Some visited \<and> token \<in> set visited \<and> distinct visited"
proof -
  obtain t where t: "while_option (\<lambda>s. fst s \<noteq> []) (crawl_step tree) ([token], []) = Some t"
    using crawl_terminates by blast
  have "crawl_inv token t"
  proof (rule while_option_rule[OF _ t, where P = "crawl_inv token"])
    show "crawl_inv token ([token], [])" by (simp add: crawl_inv_def)
  qed (rule crawl_inv_step)
  moreover have "fst t = []" using while_option_stop[OF t] by simp
  ultimately show ?thesis using t by (simp add: crawl_def crawl_inv_def)
qed

lemma crawl_eval:
  "while_option (\<lambda>s. fst s \<noteq> []) (crawl_step tree) (q, v) =
     (if q \<noteq> [] then while_option (\<lambda>s. fst s \<noteq> []) (crawl_step tree) (crawl_step tree (q, v))
      else Some (q, v))"
  by (subst while_option_unfold) simp

text \<open>
  C9. \<open>children\<close> and \<open>bastards\<close> return on every adjacency dictionary, cycles included:
  the loop leaves with a visited list, no node is in it twice, and both functions
  return what they make of it (\<open>bastards\<close> without raising).
\<close>

theorem closures_terminate:
  "\<exists>visited. crawl token tree = Some visited \<and> distinct visited
     \<and> children token tree chkset = Some (intersection visited chkset)
     \<and> bastards token tree chkset = Some (Inr (intersection (removeAll token visited) chkset))"
proof -
  obtain visited where "crawl token tree = Some visited" "token \<in> set visited" "distinct visited"
    using crawl_Some by blast
  then show ?thesis by (simp add: children_def bastards_def)
qed

theorem closures_terminate_witness:
  "\<exists>visited. crawl 1 [(1, [2]), (2, [1])] = Some visited \<and> distinct visited
     \<and> children 1 [(1, [2]), (2, [1])] None = Some (intersection visited None)
     \<and> bastards 1 [(1, [2]), (2, [1])] None = Some (Inr (intersection (removeAll 1 visited) None))"
  using closures_terminate [of 1 "[(1, [2]), (2, [1])]" None] by simp

text \<open>
  C4, as stated, at a start node outside the universe set: the inclusive closure of 1 in
  the graph with the edge 2 \<rightarrow> 1 and the universe {2} is [2], without the start node.
\<close>

theorem children_omits_token_counterexample:
  "children 1 [(1, [2])] (Some {2}) = Some [2] \<and> (1::int) \<notin> set [2]"
  by (simp add: children_def crawl_def crawl_eval getitem_def intersection_def)

text \<open>
  C4, amended. For every start node, adjacency dictionary and optional universe set,
  both closures are returned; the inclusive closure holds the start node exactly when no
  universe set is given or the start node is in it, and the exclusive closure never
  holds the start node.
\<close>

theorem closure_membership:
  "\<exists>ws up. children token tree chkset = Some ws \<and> bastards token tree chkset = Some (Inr up)
      \<and> (token \<in> set ws \<longleftrightarrow> (case chkset of None \<Rightarrow> True | Some chk \<Rightarrow> token \<in> chk))
      \<and> token \<notin> set up"
proof -
  obtain visited where "crawl token tree = Some visited" "token \<in> set visited"
    using crawl_Some by blast
  then show ?thesis
    by (cases chkset) (simp_all add: children_def bastards_def intersection_def)
qed

theorem closure_membership_witness:
  "\<exists>ws up. children 3 [(3, [1, 2])] (Some {1, 2, 3}) = Some ws
      \<and> bastards 3 [(3, [1, 2])] (Some {1, 2, 3}) = Some (Inr up)
      \<and> (3 \<in> set ws \<longleftrightarrow> (case Some {1, 2, 3 :: int} of None \<Rightarrow> True | Some chk \<Rightarrow> 3 \<in> chk))
      \<and> 3 \<notin> set up"
  using closure_membership [of 3 "[(3, [1, 2])]" "Some {1, 2, 3}"] by simp

section \<open>The graph builder and the node sets\<close>

lemma UpCOMs_rows_snoc: "UpCOMs_rows (flow @ [r]) = UpCOMs_row (UpCOMs_rows flow) r"
  by (simp add: UpCOMs_rows_def)

text \<open>
  C7. For every list of flow rows, a further row whose FROMCOMID is 0 leaves its TOCOMID
  as a key with the empty parent list, and leaves the entry of every other key as it
  was: no parent is added anywhere.
\<close>

theorem headwater_row_marks_node:
  assumes "FROMCOMID r = 0"
  shows "map_of (UpCOMs_rows (flow @ [r])) (TOCOMID r) = Some []
     \<and> (\<forall>k. k \<noteq> TOCOMID r \<longrightarrow> map_of (UpCOMs_rows (flow @ [r])) k = map_of (UpCOMs_rows flow) k)
     \<and> (\<forall>k. set (getitem (UpCOMs_rows (flow @ [r])) k) \<subseteq> set (getitem (UpCOMs_rows flow) k))"
  using assms by (simp add: UpCOMs_rows_snoc UpCOMs_row_def update_conv getitem_def)

theorem headwater_row_marks_node_witness:
  "FROMCOMID \<lparr>TOCOMID = 1, FROMCOMID = 0\<rparr> = 0
     \<and> map_of (UpCOMs_rows ([\<lparr>TOCOMID = 3, FROMCOMID = 1\<rparr>, \<lparr>TOCOMID = 1, FROMCOMID = 7\<rparr>]
                  @ [\<lparr>TOCOMID = 1, FROMCOMID = 0\<rparr>])) 1 = Some []
     \<and> map_of (UpCOMs_rows ([\<lparr>TOCOMID = 3, FROMCOMID = 1\<rparr>, \<lparr>TOCOMID = 1, FROMCOMID = 7\<rparr>]
                  @ [\<lparr>TOCOMID = 1, FROMCOMID = 0\<rparr>])) 3 = Some [1]"
  using headwater_row_marks_node [of "\<lparr>TOCOMID = 1, FROMCOMID = 0\<rparr>"
          "[\<lparr>TOCOMID = 3, FROMCOMID = 1\<rparr>, \<lparr>TOCOMID = 1, FROMCOMID = 7\<rparr>]"]
  by (simp add: UpCOMs_rows_def UpCOMs_row_def getitem_def)

text \<open>
  C8, as stated, at a catchment table that holds a negative id: the query COMIDs of the
  zone and the universe set both keep -5.
\<close>

theorem node_sets_keep_negative_counterexample:
  "zone_COMIDs [- 5, 0, 3] [] ''17'' = [- 5, 3] \<and> - 5 \<in> cats (AllCOMs [[- 5, 0, 3]]) \<and> (- 5 :: int) < 0"
  by (simp add: zone_COMIDs_def cats_def AllCOMs_def)

text \<open>
  C8, amended. For every catchment table and inter-VPU table, the query COMIDs of a zone
  and the universe set of catchments (as saved, as loaded, and as used for a zone) hold
  no zero. (Only zero is taken out; a negative id stays.)
\<close>

theorem node_sets_nonzero:
  "0 \<notin> set (zone_COMIDs catch_index interVPUtbl zone) \<and> 0 \<notin> set (AllCOMs catchment_indexes)
     \<and> 0 \<notin> cats cat \<and> (\<forall>U. zone_cats zone (cats cat) = Inr U \<longrightarrow> 0 \<notin> U)"
  by (auto simp: zone_COMIDs_def AllCOMs_def cats_def zone_cats_def Let_def split: if_splits)

theorem node_sets_nonzero_witness:
  "0 \<notin> set (zone_COMIDs [4, 0, 3]
              [\<lparr>thruCOMIDs = 0, ToZone = ''17'', DropCOMID = 0, removeCOMs = 0,
                interLine0 = 0, interLine2 = ''17'', interLine6 = 0\<rparr>] ''17'')
     \<and> 0 \<notin> set (AllCOMs [[4, 0, 3], [0]]) \<and> 0 \<notin> cats [0, 4]
     \<and> zone_cats ''17'' (cats [0, 4]) = Inr {4}"
  using node_sets_nonzero [of "[4, 0, 3]"
      "[\<lparr>thruCOMIDs = 0, ToZone = ''17'', DropCOMID = 0, removeCOMs = 0,
                interLine0 = 0, interLine2 = ''17'', interLine6 = 0\<rparr>]" "''17''" "[[4, 0, 3], [0]]" "[0, 4]"]
  by (auto simp: zone_cats_def cats_def)

section \<open>AdjustCOMs\<close>

lemma index_of_Some: "index_of x xs = Some i \<Longrightarrow> i < length xs \<and> xs ! i = x"
proof (induction xs arbitrary: i)
  case Nil
  then show ?case by simp
next
  case (Cons y ys)
  then show ?case by (cases "x = y") auto
qed

lemma index_of_member: "x \<in> set xs \<Longrightarrow> \<exists>i. index_of x xs = Some i"
  by (induction xs) auto

lemma index_of_nth: "distinct xs \<Longrightarrow> i < length xs \<Longrightarrow> index_of (xs ! i) xs = Some i"
proof (induction xs arbitrary: i)
  case Nil
  then show ?case by simp
next
  case (Cons y ys)
  then show ?case by (cases i) auto
qed

lemma AdjustCOMs_loop_result:
  assumes "wf_table tbl"
    and "index_of comid1 (COMID tbl) = Some r1"
    and "index_of comid2 (COMID tbl2) = Some r2"
    and "distinct ls" and "set ls \<subseteq> set (columns tbl)" and "set ls \<subseteq> set (columns tbl2)"
  shows "AdjustCOMs_loop ls tbl comid1 comid2 tbl2 =
           Inr (tbl\<lparr>data := map (adjusted ls tbl r1 r2 tbl2) [0..<length (columns tbl)]\<rparr>)"
  using assms
proof (induction ls arbitrary: tbl)
  case Nil
  have "map (\<lambda>k. data tbl ! k) [0..<length (data tbl)] = data tbl" by (rule map_nth)
  with Nil show ?case by (simp add: adjusted_def wf_table_def)
next
  case (Cons idx rest)
  obtain k0 where k0: "index_of idx (columns tbl) = Some k0"
    using Cons.prems(5) index_of_member[of idx "columns tbl"] by auto
  obtain k2 where k2: "index_of idx (columns tbl2) = Some k2"
    using Cons.prems(6) index_of_member[of idx "columns tbl2"] by auto
  have k0': "k0 < length (columns tbl)" "columns tbl ! k0 = idx"
    using index_of_Some[OF k0] by auto
  have len: "length (data tbl) = length (columns tbl)" and dist: "distinct (columns tbl)"
    using Cons.prems(1) by (auto simp: wf_table_def)
  let ?v = "csub (data tbl ! k0 ! r1) (data tbl2 ! k2 ! r2)"
  let ?tbl1 = "tbl\<lparr>data := (data tbl)[k0 := (data tbl ! k0)[r1 := ?v]]\<rparr>"
  have wf1: "wf_table ?tbl1"
    using Cons.prems(1) k0'(1)
    by (auto simp: wf_table_def list_all_length nth_list_update)
  have step: "AdjustCOMs_loop (idx # rest) tbl comid1 comid2 tbl2 =
                AdjustCOMs_loop rest ?tbl1 comid1 comid2 tbl2"
    using k0 k2 Cons.prems(2,3) by (simp add: get_ix_def set_ix_def)
  have IH: "AdjustCOMs_loop rest ?tbl1 comid1 comid2 tbl2 =
              Inr (?tbl1\<lparr>data := map (adjusted rest ?tbl1 r1 r2 tbl2) [0..<length (columns ?tbl1)]\<rparr>)"
    using Cons.prems by (intro Cons.IH[OF wf1]) auto
  have "adjusted rest ?tbl1 r1 r2 tbl2 k = adjusted (idx # rest) tbl r1 r2 tbl2 k"
    if "k < length (columns tbl)" for k
  proof (cases "k = k0")
    case True
    have "idx \<notin> set rest" using Cons.prems(4) by simp
    then show ?thesis using True k0' k2 len by (simp add: adjusted_def)
  next
    case False
    then have "columns tbl ! k \<noteq> idx"
      using that k0' dist by (auto simp: nth_eq_iff_index_eq)
    then show ?thesis using False by (simp add: adjusted_def)
  qed
  then have "map (adjusted rest ?tbl1 r1 r2 tbl2) [0..<length (columns tbl)]
           = map (adjusted (idx # rest) tbl r1 r2 tbl2) [0..<length (columns tbl)]"
    by simp
  with step IH show ?case by simp
qed

lemma in_butlast_iff:
  assumes "distinct xs" and "k < length xs"
  shows "xs ! k \<in> set (butlast xs) \<longleftrightarrow> Suc k < length xs"
proof
  assume "xs ! k \<in> set (butlast xs)"
  then obtain j where j: "j < length (butlast xs)" "butlast xs ! j = xs ! k"
    by (auto simp: in_set_conv_nth)
  then have "xs ! j = xs ! k" by (simp add: nth_butlast)
  then have "j = k" using assms j(1) by (simp add: nth_eq_iff_index_eq)
  then show "Suc k < length xs" using j(1) by simp
next
  assume "Suc k < length xs"
  then have "k < length (butlast xs)" by simp
  then have "butlast xs ! k \<in> set (butlast xs)" by (rule nth_mem)
  moreover have "butlast xs ! k = xs ! k" using \<open>k < length (butlast xs)\<close> by (simp add: nth_butlast)
  ultimately show "xs ! k \<in> set (butlast xs)" by simp
qed

text \<open>
  C3, as stated, on a table with an area column, a sum and a PctFull column: the area of
  COMID 1 goes from 5 to 3, and its PctFull stays 100 where the claim has 100 - 50.
\<close>

theorem AdjustCOMs_area_counterexample:
  "AdjustCOMs \<lparr>COMID = [1, 2], columns = [''CatAreaSqKm'', ''CatSum'', ''CatPctFull''],
       data = [[Num 5, Num 2], [Num 10, Num 3], [Num 100, Num 50]]\<rparr> 1 2 None
   = Inr \<lparr>COMID = [1, 2], columns = [''CatAreaSqKm'', ''CatSum'', ''CatPctFull''],
       data = [[Num 3, Num 2], [Num 7, Num 3], [Num 100, Num 50]]\<rparr>"
  by (simp add: AdjustCOMs_def get_ix_def set_ix_def csub_def)

text \<open>
  C3, amended. For every table \<open>tbl\<close> with a row for \<open>comid1\<close>, and every source table
  (\<open>tbl2\<close>, or \<open>tbl\<close> itself when none is given) with a row for \<open>comid2\<close> and the columns
  of \<open>tbl\<close> but the last, \<open>AdjustCOMs\<close> returns \<open>tbl\<close> changed in the row of \<open>comid1\<close>
  only: in every column but the last (the area column among them) the cell of \<open>comid2\<close>
  in the source is subtracted, and the last column is left as it was. COMID is the
  index of the frame, not one of its columns.
\<close>

theorem AdjustCOMs_subtracts_all_but_last:
  assumes "wf_table tbl" and "distinct (COMID tbl)" and "wf_table src \<and> distinct (COMID src)"
    and "src = (case tbl2 of None \<Rightarrow> tbl | Some t \<Rightarrow> t)"
    and "index_of comid1 (COMID tbl) = Some r1"
    and "index_of comid2 (COMID src) = Some r2"
    and "set (butlast (columns tbl)) \<subseteq> set (columns src)"
  shows "\<exists>tbl'. AdjustCOMs tbl comid1 comid2 tbl2 = Inr tbl'
     \<and> COMID tbl' = COMID tbl \<and> columns tbl' = columns tbl
     \<and> length (data tbl') = length (columns tbl)
     \<and> (\<forall>k. Suc k < length (columns tbl) \<longrightarrow>
           data tbl' ! k = (data tbl ! k)[r1 := csub (data tbl ! k ! r1)
              (data src ! the (index_of (columns tbl ! k) (columns src)) ! r2)])
     \<and> (\<forall>k. Suc k = length (columns tbl) \<longrightarrow> data tbl' ! k = data tbl ! k)"
proof -
  let ?ls = "butlast (columns tbl)"
  have dist: "distinct (columns tbl)" using assms(1) by (simp add: wf_table_def)
  have "distinct ?ls" using dist by (rule distinct_butlast)
  moreover have "set ?ls \<subseteq> set (columns tbl)" by (auto dest: in_set_butlastD)
  ultimately have res: "AdjustCOMs_loop ?ls tbl comid1 comid2 src =
      Inr (tbl\<lparr>data := map (adjusted ?ls tbl r1 r2 src) [0..<length (columns tbl)]\<rparr>)"
    using assms by (intro AdjustCOMs_loop_result) auto
  have call: "AdjustCOMs tbl comid1 comid2 tbl2 = AdjustCOMs_loop ?ls tbl comid1 comid2 src"
    using assms(4) by (simp add: AdjustCOMs_def)
  have inner: "adjusted ?ls tbl r1 r2 src k = (data tbl ! k)[r1 := csub (data tbl ! k ! r1)
              (data src ! the (index_of (columns tbl ! k) (columns src)) ! r2)]"
    if "Suc k < length (columns tbl)" for k
    using that in_butlast_iff[OF dist, of k] by (simp add: adjusted_def)
  have lastc: "adjusted ?ls tbl r1 r2 src k = data tbl ! k"
    if "Suc k = length (columns tbl)" for k
    using that in_butlast_iff[OF dist, of k] by (simp add: adjusted_def)
  show ?thesis
    unfolding call res using inner lastc by auto
qed

theorem AdjustCOMs_subtracts_all_but_last_witness:
  "\<exists>tbl'. AdjustCOMs \<lparr>COMID = [1, 2], columns = [''CatAreaSqKm'', ''CatSum'', ''CatPctFull''],
              data = [[Num 5, Num 2], [Num 10, Num 3], [Num 100, Num 50]]\<rparr> 1 1
            (Some \<lparr>COMID = [1], columns = [''CatSum'', ''CatAreaSqKm''], data = [[Num 4], [Num 1]]\<rparr>)
          = Inr tbl'
     \<and> data tbl' ! 0 = [Num 4, Num 2] \<and> data tbl' ! 1 = [Num 6, Num 3]
     \<and> data tbl' ! 2 = [Num 100, Num 50]"
proof -
  let ?tbl = "\<lparr>COMID = [1, 2], columns = [''CatAreaSqKm'', ''CatSum'', ''CatPctFull''],
              data = [[Num 5, Num 2], [Num 10, Num 3], [Num 100, Num 50]]\<rparr>"
  let ?src = "\<lparr>COMID = [1], columns = [''CatSum'', ''CatAreaSqKm''], data = [[Num 4], [Num 1]]\<rparr>"
  have h: "wf_table ?tbl" "distinct (COMID ?tbl)" "wf_table ?src \<and> distinct (COMID ?src)"
    "?src = (case Some ?src of None \<Rightarrow> ?tbl | Some t \<Rightarrow> t)"
    "index_of 1 (COMID ?tbl) = Some 0" "index_of 1 (COMID ?src) = Some 0"
    "set (butlast (columns ?tbl)) \<subseteq> set (columns ?src)"
    by (simp_all add: wf_table_def)
  obtain tbl' where r: "AdjustCOMs ?tbl 1 1 (Some ?src) = Inr tbl'"
    and sub: "\<forall>k. Suc k < length (columns ?tbl) \<longrightarrow>
           data tbl' ! k = (data ?tbl ! k)[0 := csub (data ?tbl ! k ! 0)
              (data ?src ! the (index_of (columns ?tbl ! k) (columns ?src)) ! 0)]"
    and keep: "\<forall>k. Suc k = length (columns ?tbl) \<longrightarrow> data tbl' ! k = data ?tbl ! k"
    using AdjustCOMs_subtracts_all_but_last [OF h] by blast
  have "data tbl' ! 0 = [Num 4, Num 2]" using sub[rule_format, of 0] by (simp add: csub_def)
  moreover have "data tbl' ! 1 = [Num 6, Num 3]" using sub[rule_format, of 1] by (simp add: csub_def)
  moreover have "data tbl' ! 2 = [Num 100, Num 50]" using keep[rule_format, of 2] by simp
  ultimately show ?thesis using r by blast
qed

section \<open>swapper\<close>


lemma argsort_length: "length (argsort coms) = length coms"
  by (simp add: argsort_def)

lemma argsort_nth:
  assumes "p < length coms"
  shows "argsort coms ! p < length coms
     \<and> coms ! (argsort coms ! p) = sort coms ! p"
proof -
  let ?sz = "sort_key fst (zip coms [0..<length coms])"
  have len: "length ?sz = length coms" by simp
  have "?sz ! p \<in> set ?sz" using assms len by (intro nth_mem) simp
  then have mem: "?sz ! p \<in> set (zip coms [0..<length coms])" by simp
  then obtain i where i: "i < length coms" "?sz ! p = (coms ! i, i)"
    by (auto simp: in_set_zip)
  have "map fst (zip coms [0..<length coms]) = coms" by (simp add: map_fst_zip)
  then have "mset (map fst ?sz) = mset coms" by (metis mset_map mset_sort)
  moreover have "sorted (map fst ?sz)" by (rule sorted_sort_key)
  ultimately have "sort coms = map fst ?sz" by (rule properties_for_sort)
  then have "sort coms ! p = fst (?sz ! p)" using assms len by simp
  moreover have "argsort coms ! p = snd (?sz ! p)" using assms len by (simp add: argsort_def)
  ultimately show ?thesis using i by simp
qed

lemma argsort_sorted: "map (\<lambda>i. coms ! i) (argsort coms) = sort coms"
  by (rule nth_equalityI) (simp_all add: argsort_length argsort_nth)

lemma searchsorted_le: "searchsorted a v \<le> length a"
  by (simp add: searchsorted_def length_takeWhile_le)

lemma searchsorted_above: "\<forall>x\<in>set a. x < v \<Longrightarrow> searchsorted a v = length a"
  by (simp add: searchsorted_def takeWhile_eq_all_conv[THEN iffD2])

lemma searchsorted_less:
  assumes "c \<in> set a" and "v \<le> c"
  shows "searchsorted a v < length a"
proof (rule ccontr)
  assume "\<not> searchsorted a v < length a"
  then have "length (takeWhile (\<lambda>x. x < v) a) = length a"
    using searchsorted_le[of a v] by (simp add: searchsorted_def)
  then have "takeWhile (\<lambda>x. x < v) a = a"
    by (metis takeWhile_eq_take take_all order_refl)
  then have "\<forall>x\<in>set a. x < v" by (metis set_takeWhileD)
  with assms show False by auto
qed

lemma searchsorted_Min:
  assumes "sorted a" and "c \<in> set a" and "v \<le> c"
  shows "a ! searchsorted a v = Min {x \<in> set a. v \<le> x}"
proof -
  let ?p = "searchsorted a v"
  have p: "?p < length a" using assms(2,3) by (rule searchsorted_less)
  have ge: "v \<le> a ! ?p"
    using p nth_length_takeWhile[of "\<lambda>x. x < v" a] by (simp add: searchsorted_def)
  have before: "a ! j < v" if "j < ?p" for j
  proof -
    have "takeWhile (\<lambda>x. x < v) a ! j \<in> set (takeWhile (\<lambda>x. x < v) a)"
      using that by (intro nth_mem) (simp add: searchsorted_def)
    then have "takeWhile (\<lambda>x. x < v) a ! j < v" by (metis set_takeWhileD)
    then show ?thesis using that by (simp add: searchsorted_def takeWhile_nth)
  qed
  show ?thesis
  proof (rule Min_eqI[symmetric])
    show "finite {x \<in> set a. v \<le> x}" by simp
    show "a ! ?p \<in> {x \<in> set a. v \<le> x}" using p ge by simp
    fix y assume "y \<in> {x \<in> set a. v \<le> x}"
    then obtain j where j: "j < length a" "a ! j = y" "v \<le> y" by (auto simp: in_set_conv_nth)
    then have "\<not> j < ?p" using before[of j] by auto
    then have "?p \<le> j" by simp
    then show "a ! ?p \<le> y" using assms(1) j by (auto simp: sorted_iff_nth_mono)
  qed
qed



lemma set_sort_coms: "set (sort coms) = set coms" by simp

lemma swapper_Inr:
  assumes "\<forall>u\<in>set upStream. \<exists>c\<in>set coms. u \<le> c"
  shows "\<exists>indices. swapper coms upStream = Inr indices \<and> length indices = length upStream
     \<and> (\<forall>j<length upStream. indices ! j < length coms
            \<and> coms ! (indices ! j) = Min {c \<in> set coms. upStream ! j \<le> c})"
proof -
  let ?a = "sort coms"
  have pos: "searchsorted ?a u < length coms" if u: "u \<in> set upStream" for u
  proof -
    obtain c where "c \<in> set ?a" "u \<le> c" using assms u by auto
    then have "searchsorted ?a u < length ?a" by (rule searchsorted_less)
    then show ?thesis by simp
  qed
  then have "\<forall>u\<in>set upStream. \<not> length coms \<le> searchsorted ?a u"
    by (simp add: not_le)
  then have ok: "\<not> list_ex (\<lambda>p. length (argsort coms) \<le> p) (map (searchsorted ?a) upStream)"
    by (simp add: list_ex_iff argsort_length)
  have val: "coms ! (argsort coms ! searchsorted ?a (upStream ! j))
               = Min {c \<in> set coms. upStream ! j \<le> c}" if "j < length upStream" for j
  proof -
    let ?u = "upStream ! j"
    have u: "?u \<in> set upStream" using that by simp
    obtain c where c: "c \<in> set ?a" "?u \<le> c" using assms u by auto
    have "?a ! searchsorted ?a ?u = Min {x \<in> set ?a. ?u \<le> x}"
      using sorted_sort c by (rule searchsorted_Min)
    then show ?thesis using argsort_nth[OF pos[OF u]] by simp
  qed
  show ?thesis
    using ok val pos argsort_nth
    by (simp add: swapper_def Let_def argsort_sorted)
qed

lemma swapper_Inl:
  assumes "u \<in> set upStream" and "\<forall>c\<in>set coms. c < u"
  shows "swapper coms upStream = Inl IndexError"
proof -
  have "searchsorted (sort coms) u = length (sort coms)"
    using assms(2) by (intro searchsorted_above) simp
  then have "list_ex (\<lambda>p. length (argsort coms) \<le> p) (map (searchsorted (sort coms)) upStream)"
    using assms(1) by (auto simp: list_ex_iff argsort_length intro!: bexI[of _ u])
  then show ?thesis by (simp add: swapper_def Let_def argsort_sorted)
qed

text \<open>
  C10, as stated, at an id above every element of \<open>coms\<close>: \<open>searchsorted\<close> gives the
  position 2, past the end of \<open>bsort\<close>, and \<open>bsort[apos]\<close> raises IndexError.
\<close>

theorem swapper_out_of_range_counterexample:
  "swapper [1, 2] [5] = Inl IndexError"
  by (simp add: swapper_def argsort_def searchsorted_def)

text \<open>
  C10, amended. If \<open>coms\<close> has no duplicates and every element of \<open>upStream\<close> occurs in
  \<open>coms\<close>, then \<open>swapper\<close> returns indices with \<open>coms[indices] = upStream\<close>, element by
  element. Membership is not checked: an id absent from \<open>coms\<close> and below some element
  of \<open>coms\<close> resolves, with no error, to the row of the smallest COMID above it; an id
  above every element of \<open>coms\<close> makes \<open>swapper\<close> raise IndexError.
\<close>

theorem swapper_lookup:
  "(distinct coms \<and> set upStream \<subseteq> set coms \<longrightarrow>
      (\<exists>indices. swapper coms upStream = Inr indices \<and> length indices = length upStream
         \<and> (\<forall>j<length upStream. indices ! j < length coms \<and> coms ! (indices ! j) = upStream ! j)))
   \<and> (u \<notin> set coms \<and> (\<exists>c\<in>set coms. u < c) \<longrightarrow>
      (\<exists>i. swapper coms [u] = Inr [i] \<and> i < length coms \<and> coms ! i \<noteq> u
         \<and> coms ! i = Min {c \<in> set coms. u < c}))
   \<and> (u \<in> set upStream \<and> (\<forall>c\<in>set coms. c < u) \<longrightarrow> swapper coms upStream = Inl IndexError)"
proof (intro conjI impI)
  assume h: "distinct coms \<and> set upStream \<subseteq> set coms"
  then have "\<forall>u\<in>set upStream. \<exists>c\<in>set coms. u \<le> c" by auto
  then obtain indices where r: "swapper coms upStream = Inr indices"
      "length indices = length upStream"
      "\<forall>j<length upStream. indices ! j < length coms
            \<and> coms ! (indices ! j) = Min {c \<in> set coms. upStream ! j \<le> c}"
    using swapper_Inr by blast
  have "Min {c \<in> set coms. upStream ! j \<le> c} = upStream ! j" if "j < length upStream" for j
  proof (rule Min_eqI)
    show "upStream ! j \<in> {c \<in> set coms. upStream ! j \<le> c}" using h that by auto
  qed auto
  then show "\<exists>indices. swapper coms upStream = Inr indices \<and> length indices = length upStream
         \<and> (\<forall>j<length upStream. indices ! j < length coms \<and> coms ! (indices ! j) = upStream ! j)"
    using r by auto
next
  assume h: "u \<notin> set coms \<and> (\<exists>c\<in>set coms. u < c)"
  then have "\<forall>v\<in>set [u]. \<exists>c\<in>set coms. v \<le> c" using order_less_imp_le by fastforce
  then obtain indices where r: "swapper coms [u] = Inr indices"
      "length indices = length [u]"
      "\<forall>j<length [u]. indices ! j < length coms
            \<and> coms ! (indices ! j) = Min {c \<in> set coms. [u] ! j \<le> c}"
    using swapper_Inr by blast
  from r(2) obtain i where i: "indices = [i]" by (cases indices) auto
  have eq: "{c \<in> set coms. u \<le> c} = {c \<in> set coms. u < c}" using h by (auto simp: order_less_le)
  have "i < length coms" "coms ! i = Min {c \<in> set coms. u < c}"
    using r(3) i eq by auto
  moreover have "coms ! i \<noteq> u" using h calculation(1) by (metis nth_mem)
  ultimately show "\<exists>i. swapper coms [u] = Inr [i] \<and> i < length coms \<and> coms ! i \<noteq> u
         \<and> coms ! i = Min {c \<in> set coms. u < c}"
    using r(1) i by auto
next
  assume "u \<in> set upStream \<and> (\<forall>c\<in>set coms. c < u)"
  then show "swapper coms upStream = Inl IndexError" using swapper_Inl by blast
qed

theorem swapper_lookup_witness:
  "(\<exists>indices. swapper [30, 10, 20] [20, 30, 20] = Inr indices
         \<and> length indices = length [20, 30, 20 :: int]
         \<and> (\<forall>j<length [20, 30, 20 :: int]. indices ! j < length [30, 10, 20 :: int]
               \<and> [30, 10, 20 :: int] ! (indices ! j) = [20, 30, 20] ! j))
   \<and> (\<exists>i. swapper [30, 10, 20] [15] = Inr [i] \<and> [30, 10, 20] ! i = (20::int))
   \<and> swapper [30, 10, 20] [20, 35] = Inl IndexError"
proof -
  have 1: "distinct [30, 10, 20 :: int] \<and> set [20, 30, 20] \<subseteq> set [30, 10, 20 :: int]" by simp
  have 2: "(15::int) \<notin> set [30, 10, 20] \<and> (\<exists>c\<in>set [30, 10, 20]. (15::int) < c)" by simp
  have 3: "(35::int) \<in> set [20, 35] \<and> (\<forall>c\<in>set [30, 10, 20]. c < (35::int))" by simp
  have m: "Min {c \<in> set [30, 10, 20]. (15::int) < c} = 20"
    by (rule Min_eqI) auto
  note a = swapper_lookup [of "[30, 10, 20]" "[20, 30, 20]" 15, THEN conjunct1, rule_format, OF 1]
  note b = swapper_lookup [of "[30, 10, 20]" "[20, 30, 20]" 15, THEN conjunct2, THEN conjunct1, rule_format, OF 2]
  note c = swapper_lookup [of "[30, 10, 20]" "[20, 35]" 35, THEN conjunct2, THEN conjunct2, rule_format, OF 3]
  show ?thesis using a b c m by (auto simp del: length_Cons)
qed

section \<open>Accumulation\<close>

lemma Accumulation_Inr:
  assumes "Accumulation arr COMIDs lengths upStream tbl_type = Inr out"
  shows "\<exists>indices area. swapper (COMID arr) upStream = Inr indices
     \<and> outDF_columns (columns arr) tbl_type = Inr (out_columns out)
     \<and> area_column (out_columns out) = Some area
     \<and> out_rows out = map (mask_row area) (outT_rows arr COMIDs lengths indices)"
  using assms
  by (auto simp: Accumulation_def split: sum.splits if_splits option.splits)

lemma hd_mask_row: "row \<noteq> [] \<Longrightarrow> hd (mask_row area row) = hd row"
  by (cases row) (simp_all add: mask_row_def)

lemma outT_rows_COMID:
  "map hd (map (mask_row area) (outT_rows arr COMIDs lengths indices))
     = map (\<lambda>c. Num (of_int c)) (filter (\<lambda>c. c \<in> set (COMID arr)) COMIDs)"
proof -
  define outT where "outT = map (\<lambda>i. Num (of_int (COMIDs ! i)) # map (\<lambda>z. z ! i)
        (map (accumulate_column arr indices (length COMIDs) lengths) [0..<length (columns arr)]))
                   [0..<length COMIDs]"
  have len: "length outT = length COMIDs" by (simp add: outT_def)
  have each: "snd p \<noteq> [] \<and> hd (snd p) = Num (of_int (fst p))" if p: "p \<in> set (zip COMIDs outT)" for p
  proof -
    obtain i where "i < length COMIDs" "p = (COMIDs ! i, outT ! i)"
      using p len by (auto simp: in_set_zip)
    then show ?thesis by (simp add: outT_def)
  qed
  have "map hd (map (mask_row area) (map snd (filter (\<lambda>p. fst p \<in> set (COMID arr)) (zip COMIDs outT))))
      = map (\<lambda>p. Num (of_int (fst p))) (filter (\<lambda>p. fst p \<in> set (COMID arr)) (zip COMIDs outT))"
    using each by (auto simp: hd_mask_row)
  also have "\<dots> = map (\<lambda>c. Num (of_int c)) (map fst (filter (\<lambda>p. fst p \<in> set (COMID arr)) (zip COMIDs outT)))"
    by simp
  also have "map fst (filter (\<lambda>p. fst p \<in> set (COMID arr)) (zip COMIDs outT))
           = filter (\<lambda>c. c \<in> set (COMID arr)) (map fst (zip COMIDs outT))"
    by (simp add: filter_map o_def)
  also have "map fst (zip COMIDs outT) = COMIDs" using len by (simp add: map_fst_zip)
  finally show ?thesis by (simp add: outT_rows_def outT_def Let_def)
qed

text \<open>
  C6. Whenever \<open>Accumulation\<close> returns a table, its rows are, in order, the query ids in
  \<open>COMIDs\<close> that have a row in the metric table: the COMID of every output row is one
  of the query ids, and a query id with no row in the metric table (a node that is in the
  closure index for the traversal only) is in no output row.
\<close>

theorem output_rows_restricted:
  assumes "wf_table arr"
    and run: "Accumulation arr COMIDs lengths upStream tbl_type = Inr out"
  shows "map hd (out_rows out) = map (\<lambda>c. Num (of_int c)) (filter (\<lambda>c. c \<in> set (COMID arr)) COMIDs)
     \<and> (\<forall>row\<in>set (out_rows out). \<exists>c\<in>set COMIDs \<inter> set (COMID arr). hd row = Num (of_int c))
     \<and> (\<forall>c. c \<notin> set (COMID arr) \<longrightarrow> (\<forall>row\<in>set (out_rows out). hd row \<noteq> Num (of_int c)))"
proof -
  obtain indices area where "out_rows out = map (mask_row area) (outT_rows arr COMIDs lengths indices)"
    using Accumulation_Inr[OF run] by blast
  then have eq: "map hd (out_rows out)
      = map (\<lambda>c. Num (of_int c)) (filter (\<lambda>c. c \<in> set (COMID arr)) COMIDs)"
    by (simp only: outT_rows_COMID)
  have mem: "\<exists>c\<in>set COMIDs \<inter> set (COMID arr). hd row = Num (of_int c)"
    if "row \<in> set (out_rows out)" for row
  proof -
    have "hd row \<in> set (map hd (out_rows out))" using that by simp
    then show ?thesis unfolding eq by auto
  qed
  have "hd row \<noteq> Num (of_int c)" if c: "c \<notin> set (COMID arr)" and row: "row \<in> set (out_rows out)" for c row
  proof -
    obtain c' where "c' \<in> set (COMID arr)" "hd row = Num (of_int c')" using mem[OF row] by auto
    then show ?thesis using c by auto
  qed
  then show ?thesis using eq mem by blast
qed



theorem output_rows_restricted_witness:
  "map hd (out_rows \<lparr>out_columns = [''COMID'', ''WsAreaSqKm'', ''WsMetric''],
        out_rows = [[Num 1, Num 1, Num 10], [Num 3, Num 2, Num 20]]\<rparr>)
     = map (\<lambda>c. Num (of_int c)) (filter (\<lambda>c. c \<in> set [3, 1 :: int]) [1, 2, 3])"
proof -
  have run: "Accumulation \<lparr>COMID = [3, 1], columns = [''CatAreaSqKm'', ''CatMetric''],
          data = [[Num 1, Num 1], [Num 10, Num 10]]\<rparr> [1, 2, 3] [1, 1, 2] [1, 1, 3, 1] ''Ws''
     = Inr \<lparr>out_columns = [''COMID'', ''WsAreaSqKm'', ''WsMetric''],
        out_rows = [[Num 1, Num 1, Num 10], [Num 3, Num 2, Num 20]]\<rparr>"
    by code_simp
  have wf: "wf_table \<lparr>COMID = [3, 1], columns = [''CatAreaSqKm'', ''CatMetric''],
          data = [[Num 1, Num 1], [Num 10, Num 10]]\<rparr>"
    by (simp add: wf_table_def)
  show ?thesis using output_rows_restricted [OF wf run] by simp
qed

lemma length_mask_row: "length (mask_row area row) = length row"
  by (auto simp: mask_row_def)

lemma mask_row_zero:
  "row ! area = Num 0 \<Longrightarrow> j < length row \<Longrightarrow>
     mask_row area row ! j = (if j < 2 then row ! j else NaN)"
  by (auto simp: mask_row_def nth_append)

lemma mask_row_nonzero: "row ! area \<noteq> Num 0 \<Longrightarrow> mask_row area row = row"
  by (simp add: mask_row_def)

lemma area_column_Some:
  assumes "area_column names = Some area"
  shows "area < length names \<and> sublist ''AreaSqKm'' (names ! area)"
proof -
  let ?js = "filter (\<lambda>j. sublist ''AreaSqKm'' (names ! j)) [0..<length names]"
  have ne: "?js \<noteq> []" and l: "area = last ?js"
    using assms by (auto simp: area_column_def split: list.splits)
  have "last ?js \<in> set ?js" using ne by (rule last_in_set)
  then show ?thesis using l by auto
qed

text \<open>
  C2, as stated, at a table whose only catchment has area zero: the accumulated area
  column is a derived column and keeps the number 0; the cells after it are NaN.
\<close>

theorem zero_area_counterexample:
  "Accumulation \<lparr>COMID = [4], columns = [''CatAreaSqKm'', ''CatSum''],
       data = [[Num 0], [Num 5]]\<rparr> [4] [1] [4] ''Ws''
   = Inr \<lparr>out_columns = [''COMID'', ''WsAreaSqKm'', ''WsSum''],
          out_rows = [[Num 4, Num 0, NaN]]\<rparr>"
  by code_simp

text \<open>
  C2, amended. Whenever \<open>Accumulation\<close> returns a table, \<open>area\<close> being the position of the
  last label that contains \<open>'AreaSqKm'\<close>: a row whose accumulated cell at \<open>area\<close> is zero
  keeps its first two cells (the COMID and the column after it, the area column itself
  in the tables the callers build, which so stays the number 0) and has NaN in every
  cell from \<open>outDF.columns[2:]\<close>; every other row is returned as accumulated.
\<close>

theorem zero_area_masks:
  assumes "wf_table arr"
    and run: "Accumulation arr COMIDs lengths upStream tbl_type = Inr out"
    and "distinct (out_columns out)"
  shows "\<exists>indices area. swapper (COMID arr) upStream = Inr indices
     \<and> area_column (out_columns out) = Some area
     \<and> sublist ''AreaSqKm'' (out_columns out ! area)
     \<and> length (out_rows out) = length (outT_rows arr COMIDs lengths indices)
     \<and> (\<forall>i<length (out_rows out).
          length (out_rows out ! i) = length (outT_rows arr COMIDs lengths indices ! i)
          \<and> (outT_rows arr COMIDs lengths indices ! i ! area = Num 0 \<longrightarrow>
               (\<forall>j<length (out_rows out ! i). out_rows out ! i ! j =
                    (if j < 2 then outT_rows arr COMIDs lengths indices ! i ! j else NaN)))
          \<and> (outT_rows arr COMIDs lengths indices ! i ! area \<noteq> Num 0 \<longrightarrow>
               out_rows out ! i = outT_rows arr COMIDs lengths indices ! i))"
proof -
  obtain indices area where sw: "swapper (COMID arr) upStream = Inr indices"
    and ac: "area_column (out_columns out) = Some area"
    and rows: "out_rows out = map (mask_row area) (outT_rows arr COMIDs lengths indices)"
    using Accumulation_Inr[OF run] by blast
  have "sublist ''AreaSqKm'' (out_columns out ! area)" using area_column_Some[OF ac] by simp
  then show ?thesis using sw ac rows
    by (auto simp: length_mask_row mask_row_zero mask_row_nonzero)
qed


theorem zero_area_masks_witness:
  "\<exists>area. area_column [''COMID'', ''UpCatAreaSqKm'', ''UpCatSum''] = Some area
     \<and> sublist ''AreaSqKm'' ([''COMID'', ''UpCatAreaSqKm'', ''UpCatSum''] ! area)
     \<and> length [[Num 4, Num 0, NaN], [Num 5, Num 2, Num 7]]
          = length (outT_rows \<lparr>COMID = [4, 5], columns = [''CatAreaSqKm'', ''CatSum''],
                data = [[Num 2, Num 0], [Num 7, NaN]]\<rparr> [4, 5] [0, 1] [0])"
proof -
  have run: "Accumulation \<lparr>COMID = [4, 5], columns = [''CatAreaSqKm'', ''CatSum''],
       data = [[Num 2, Num 0], [Num 7, NaN]]\<rparr> [4, 5] [0, 1] [4] ''UpCat''
   = Inr \<lparr>out_columns = [''COMID'', ''UpCatAreaSqKm'', ''UpCatSum''],
          out_rows = [[Num 4, Num 0, NaN], [Num 5, Num 2, Num 7]]\<rparr>"
    by code_simp
  have sw: "swapper [4, 5] [4] = Inr [0]" by code_simp
  have wf: "wf_table \<lparr>COMID = [4, 5], columns = [''CatAreaSqKm'', ''CatSum''],
       data = [[Num 2, Num 0], [Num 7, NaN]]\<rparr>"
    by (simp add: wf_table_def)
  have d: "distinct (out_columns \<lparr>out_columns = [''COMID'', ''UpCatAreaSqKm'', ''UpCatSum''],
          out_rows = [[Num 4, Num 0, NaN], [Num 5, Num 2, Num 7]]\<rparr>)"
    by simp
  show ?thesis using zero_area_masks [OF wf run d] sw by auto
qed














section \<open>The scenario of two tributaries\<close>


lemma nansum_replicate: "nansum (replicate n (Num v)) = Num (of_nat n * v)"
  by (induction n) (simp_all add: nansum_def np_sum_def algebra_simps)

lemma slice_replicate: "x + n \<le> N \<Longrightarrow> slice (replicate N v) x (x + n) = replicate n v"
  by (simp add: slice_def min_def)

lemma nansum_loop_replicate:
  "x + sum_list lengths \<le> N \<Longrightarrow>
     nansum_loop (replicate N (Num v)) x lengths = map (\<lambda>n. Num (of_nat n * v)) lengths"
proof (induction lengths arbitrary: x)
  case Nil
  then show ?case by simp
next
  case (Cons n lengths)
  then have "x + n \<le> N" and "(x + n) + sum_list lengths \<le> N" by simp_all
  then show ?case using Cons.IH[of "x + n"] by (simp add: slice_replicate nansum_replicate)
qed

lemma scenario_labels:
  "\<not> sublist ''PctFull'' ''CatAreaSqKm''" "\<not> sublist ''PctFull'' ''CatMetric''"
  "outDF_columns [''CatAreaSqKm'', ''CatMetric''] ''Ws'' = Inr [''COMID'', ''WsAreaSqKm'', ''WsMetric'']"
  "outDF_columns [''CatAreaSqKm'', ''CatMetric''] ''UpCat'' = Inr [''COMID'', ''UpCatAreaSqKm'', ''UpCatMetric'']"
  "area_column [''COMID'', ''WsAreaSqKm'', ''WsMetric''] = Some 1"
  "area_column [''COMID'', ''UpCatAreaSqKm'', ''UpCatMetric''] = Some 1"
  by code_simp+

lemma uniform_lookup:
  assumes "\<forall>i\<in>set indices. i < 3"
  shows "map (\<lambda>i. [v, v, v] ! i) indices = replicate (length indices) v"
proof -
  have "[v, v, v] ! i = v" if "i < 3" for i
    using that by (cases i; simp; cases "i - 1"; simp)
  then show ?thesis using assms by (induction indices) simp_all
qed

lemma scenario_rows:
  assumes "distinct [A, B, C]" and "set upStream \<subseteq> {A, B, C}"
    and "length upStream = l1 + l2 + l3"
    and "names = (if tbl_type = ''Ws'' then [''COMID'', ''WsAreaSqKm'', ''WsMetric'']
                  else [''COMID'', ''UpCatAreaSqKm'', ''UpCatMetric''])"
    and "tbl_type = ''Ws'' \<or> tbl_type = ''UpCat''"
  shows "Accumulation \<lparr>COMID = [A, B, C], columns = [''CatAreaSqKm'', ''CatMetric''],
            data = [[Num 1, Num 1, Num 1], [Num 10, Num 10, Num 10]]\<rparr>
           [A, B, C] [l1, l2, l3] upStream tbl_type
         = Inr \<lparr>out_columns = names,
                out_rows = map (mask_row 1)
                  [[Num (of_int A), Num (of_nat l1), Num (of_nat l1 * 10)],
                   [Num (of_int B), Num (of_nat l2), Num (of_nat l2 * 10)],
                   [Num (of_int C), Num (of_nat l3), Num (of_nat l3 * 10)]]\<rparr>"
proof -
  let ?arr = "\<lparr>COMID = [A, B, C], columns = [''CatAreaSqKm'', ''CatMetric''],
            data = [[Num 1, Num 1, Num 1], [Num 10, Num 10, Num 10]]\<rparr>"
  have "\<forall>u\<in>set upStream. \<exists>c\<in>set [A, B, C]. u \<le> c" using assms(2) by auto
  then obtain indices where sw: "swapper [A, B, C] upStream = Inr indices"
    and len: "length indices = length upStream"
    and lt: "\<forall>j<length upStream. indices ! j < length [A, B, C]"
    using swapper_Inr[of upStream "[A, B, C]"] by blast
  have lt3: "\<forall>i\<in>set indices. i < 3" using lt len by (auto simp: in_set_conv_nth numeral_3_eq_3)
  have N: "0 + sum_list [l1, l2, l3] \<le> length indices" using len assms(3) by simp
  have col0: "accumulate_column ?arr indices (Suc (Suc (Suc 0))) [l1, l2, l3] 0 = [Num (of_nat l1), Num (of_nat l2), Num (of_nat l3)]"
    using nansum_loop_replicate[OF N, of 1]
    by (simp add: accumulate_column_def scenario_labels uniform_lookup[OF lt3])
  have col1: "accumulate_column ?arr indices (Suc (Suc (Suc 0))) [l1, l2, l3] (Suc 0)
       = [Num (of_nat l1 * 10), Num (of_nat l2 * 10), Num (of_nat l3 * 10)]"
    using nansum_loop_replicate[OF N, of 10]
    by (simp add: accumulate_column_def scenario_labels uniform_lookup[OF lt3])
  have upt: "[0..<2] = [0, 1]" "[0..<3] = [0, 1, 2]" by (simp_all add: upt_rec)
  have rows: "outT_rows ?arr [A, B, C] [l1, l2, l3] indices =
                  [[Num (of_int A), Num (of_nat l1), Num (of_nat l1 * 10)],
                   [Num (of_int B), Num (of_nat l2), Num (of_nat l2 * 10)],
                   [Num (of_int C), Num (of_nat l3), Num (of_nat l3 * 10)]]"
    using col0 col1 by (simp add: outT_rows_def upt)
  show ?thesis using assms(4,5) sw rows
    by (auto simp: Accumulation_def scenario_labels)
qed


lemma scenario_tree:
  assumes "A \<noteq> 0" and "B \<noteq> 0"
  shows "UpCOMs_rows [\<lparr>TOCOMID = C, FROMCOMID = A\<rparr>, \<lparr>TOCOMID = C, FROMCOMID = B\<rparr>] = [(C, [A, B])]"
  using assms by (simp add: UpCOMs_rows_def UpCOMs_row_def getitem_def)

lemma scenario_crawl:
  assumes "distinct [A, B, C]"
  shows "crawl A [(C, [A, B])] = Some [A]" "crawl B [(C, [A, B])] = Some [B]"
    "crawl C [(C, [A, B])] = Some [C, B, A]"
  using assms by (simp_all add: crawl_def crawl_eval getitem_def)

lemma scenario_closures:
  assumes "distinct [A, B, C]" and "A \<noteq> 0" and "B \<noteq> 0" and "C \<noteq> 0"
  shows "map (\<lambda>x. children x [(C, [A, B])] (Some (cats [A, B, C]))) [A, B, C]
           = map Some [[A], [B], [C, B, A]]"
    and "map (\<lambda>x. bastards x [(C, [A, B])] (Some (cats [A, B, C]))) [A, B, C]
           = map (Some \<circ> Inr) [[], [], [B, A]]"
  using assms scenario_crawl[OF assms(1)]
  by (auto simp: children_def bastards_def intersection_def cats_def)

text \<open>
  C1. The graph has the edges A \<rightarrow> C and B \<rightarrow> C; A, B and C each have AreaSqKm 1 and
  Metric 10 in the metric table. The closure index is built as \<open>makeNumpyVectors\<close> builds
  it, from \<open>children\<close> for 'Ws' and from \<open>bastards\<close> for 'UpCat', the members of every
  closure in any order (\<open>ws\<close> and \<open>us\<close>). Then the 'Ws' row of C has AreaSqKm 3 and
  Metric 30, and the 'UpCat' row of C has AreaSqKm 2 and Metric 20.
\<close>

theorem two_tributary_scenario:
  assumes "distinct [A, B, C]" and "A \<noteq> 0" and "B \<noteq> 0" and "C \<noteq> 0"
    and "tree = UpCOMs_rows [\<lparr>TOCOMID = C, FROMCOMID = A\<rparr>, \<lparr>TOCOMID = C, FROMCOMID = B\<rparr>]"
    and "arr = \<lparr>COMID = [A, B, C], columns = [''CatAreaSqKm'', ''CatMetric''],
                 data = [[Num 1, Num 1, Num 1], [Num 10, Num 10, Num 10]]\<rparr>"
    and "map (\<lambda>x. children x tree (Some (cats [A, B, C]))) [A, B, C] = map Some cs"
    and "list_all2 (\<lambda>w c. mset w = mset c) ws cs"
    and "map (\<lambda>x. bastards x tree (Some (cats [A, B, C]))) [A, B, C] = map (Some \<circ> Inr) bs"
    and "list_all2 (\<lambda>u b. mset u = mset b) us bs"
  shows "(\<exists>rA rB. Accumulation arr [A, B, C] (map length ws) (concat ws) ''Ws''
           = Inr \<lparr>out_columns = [''COMID'', ''WsAreaSqKm'', ''WsMetric''],
                  out_rows = [rA, rB, [Num (of_int C), Num 3, Num 30]]\<rparr>)
       \<and> (\<exists>rA rB. Accumulation arr [A, B, C] (map length us) (concat us) ''UpCat''
           = Inr \<lparr>out_columns = [''COMID'', ''UpCatAreaSqKm'', ''UpCatMetric''],
                  out_rows = [rA, rB, [Num (of_int C), Num 2, Num 20]]\<rparr>)"
proof -
  have tree: "tree = [(C, [A, B])]" using assms(2,3,5) by (simp add: scenario_tree)
  have cs: "cs = [[A], [B], [C, B, A]]"
    using assms(7) scenario_closures(1)[OF assms(1-4)] unfolding tree
    by (simp add: map_eq_Cons_conv)
  have bs: "bs = [[], [], [B, A]]"
    using assms(9) scenario_closures(2)[OF assms(1-4)] unfolding tree
    by (simp add: map_eq_Cons_conv)
  obtain wA wB wC where ws: "ws = [wA, wB, wC]"
      and w: "mset wA = mset [A]" "mset wB = mset [B]" "mset wC = mset [C, B, A]"
    using assms(8) unfolding cs by (auto simp: list_all2_Cons2)
  obtain uA uB uC where us: "us = [uA, uB, uC]"
      and u: "mset uA = mset []" "mset uB = mset []" "mset uC = mset [B, A]"
    using assms(10) unfolding bs by (auto simp: list_all2_Cons2)
  have wl: "length wA = 1" "length wB = 1" "length wC = 3"
    using w[THEN arg_cong, of size] by simp_all
  have ul: "length uA = 0" "length uB = 0" "length uC = 2"
    using u[THEN arg_cong, of size] by simp_all
  have wset: "set (concat ws) \<subseteq> {A, B, C}"
    using w[THEN arg_cong, of set_mset] unfolding ws by auto
  have uset: "set (concat us) \<subseteq> {A, B, C}"
    using u[THEN arg_cong, of set_mset] unfolding us by auto
  have W: "Accumulation arr [A, B, C] (map length ws) (concat ws) ''Ws''
           = Inr \<lparr>out_columns = [''COMID'', ''WsAreaSqKm'', ''WsMetric''],
                  out_rows = [[Num (of_int A), Num 1, Num 10], [Num (of_int B), Num 1, Num 10],
                              [Num (of_int C), Num 3, Num 30]]\<rparr>"
    using scenario_rows[OF assms(1) wset, of "length wA" "length wB" "length wC" _ "''Ws''"]
    unfolding assms(6) ws by (simp add: wl mask_row_def)
  have U: "Accumulation arr [A, B, C] (map length us) (concat us) ''UpCat''
           = Inr \<lparr>out_columns = [''COMID'', ''UpCatAreaSqKm'', ''UpCatMetric''],
                  out_rows = [[Num (of_int A), Num 0, NaN], [Num (of_int B), Num 0, NaN],
                              [Num (of_int C), Num 2, Num 20]]\<rparr>"
    using scenario_rows[OF assms(1) uset, of "length uA" "length uB" "length uC" _ "''UpCat''"]
    unfolding assms(6) us by (simp add: ul mask_row_def)
  show ?thesis using W U by simp
qed


theorem two_tributary_scenario_witness:
  "(\<exists>rA rB. Accumulation \<lparr>COMID = [1, 2, 3], columns = [''CatAreaSqKm'', ''CatMetric''],
                 data = [[Num 1, Num 1, Num 1], [Num 10, Num 10, Num 10]]\<rparr>
        [1, 2, 3] (map length [[1], [2], [2, 3, 1 :: int]]) (concat [[1], [2], [2, 3, 1]]) ''Ws''
           = Inr \<lparr>out_columns = [''COMID'', ''WsAreaSqKm'', ''WsMetric''],
                  out_rows = [rA, rB, [Num (of_int 3), Num 3, Num 30]]\<rparr>)
   \<and> (\<exists>rA rB. Accumulation \<lparr>COMID = [1, 2, 3], columns = [''CatAreaSqKm'', ''CatMetric''],
                 data = [[Num 1, Num 1, Num 1], [Num 10, Num 10, Num 10]]\<rparr>
        [1, 2, 3] (map length [[], [], [1, 2 :: int]]) (concat [[], [], [1, 2]]) ''UpCat''
           = Inr \<lparr>out_columns = [''COMID'', ''UpCatAreaSqKm'', ''UpCatMetric''],
                  out_rows = [rA, rB, [Num (of_int 3), Num 2, Num 20]]\<rparr>)"
proof -
  let ?tree = "UpCOMs_rows [\<lparr>TOCOMID = 3, FROMCOMID = 1\<rparr>, \<lparr>TOCOMID = 3, FROMCOMID = 2\<rparr>]"
  have t: "?tree = [(3, [1, 2])]"
    by (simp add: UpCOMs_rows_def UpCOMs_row_def getitem_def)
  have c: "map (\<lambda>x. children x ?tree (Some (cats [1, 2, 3]))) [1, 2, 3]
             = map Some [[1], [2], [3, 2, 1]]"
    unfolding t by (simp add: children_def crawl_def crawl_eval getitem_def intersection_def cats_def)
  have b: "map (\<lambda>x. bastards x ?tree (Some (cats [1, 2, 3]))) [1, 2, 3]
             = map (Some \<circ> Inr) [[], [], [2, 1]]"
    unfolding t by (simp add: bastards_def crawl_def crawl_eval getitem_def intersection_def cats_def)
  have w: "list_all2 (\<lambda>w c. mset w = mset c) [[1], [2], [2, 3, 1 :: int]] [[1], [2], [3, 2, 1]]"
    by simp
  have u: "list_all2 (\<lambda>u b. mset u = mset b) [[], [], [1, 2 :: int]] [[], [], [2, 1]]"
    by simp
  have d: "distinct [1, 2, 3 :: int]" "(1::int) \<noteq> 0" "(2::int) \<noteq> 0" "(3::int) \<noteq> 0"
    by simp_all
  show ?thesis by (rule two_tributary_scenario [OF d refl refl c w b u])
qed


end
